theory Spec2Isabelle
  imports Complex_Main "HOL-Library.Word" "HOL-Library.Multiset"
begin

section \<open>Bytes, exceptions and the struct format \<open><Idi\<close>\<close>

text \<open>
  The benchmark of \<open>network_benchmark.py\<close> exchanges frames made of a 16-byte header
  (\<open>struct.pack('<Idi', msg_id, send_time, len(payload))\<close>) and a payload.  Python's
  \<open>bytes\<close> are lists of 8-bit words, Python's integers are \<open>int\<close>, and an exception is
  the left injection of a sum.  The send timestamp is a binary64 float; the codec only
  moves its 64 bits, so it is modelled by its bit pattern.
\<close>

type_synonym byte = "8 word"
type_synonym f64 = "64 word"

datatype py_exn =
    ValueError
  | StructError
  | SocketTimeout
  | OSError
  | ConnectionRefusedError
  | IndexError
  | ZeroDivisionError

text \<open>Little-endian bytes of a natural number, and the number of little-endian bytes.\<close>

fun le_bytes :: "nat \<Rightarrow> nat \<Rightarrow> byte list" where
  "le_bytes 0 n = []"
| "le_bytes (Suc k) n = of_nat (n mod 256) # le_bytes k (n div 256)"

fun le_nat :: "byte list \<Rightarrow> nat" where
  "le_nat [] = 0"
| "le_nat (b # bs) = unat b + 256 * le_nat bs"

text \<open>
  \<open>struct.pack\<close> raises \<open>struct.error\<close> when an integer does not fit its format:
  \<open>I\<close> takes \<open>0 .. 2^32 - 1\<close>, \<open>i\<close> takes \<open>-2^31 .. 2^31 - 1\<close>.  A float always packs.
\<close>

definition pack_I :: "int \<Rightarrow> py_exn + byte list" where
  "pack_I x = (if 0 \<le> x \<and> x < 4294967296 then Inr (le_bytes 4 (nat x)) else Inl StructError)"

definition pack_i :: "int \<Rightarrow> py_exn + byte list" where
  "pack_i x =
     (if - 2147483648 \<le> x \<and> x < 2147483648
      then Inr (le_bytes 4 (nat (x mod 4294967296))) else Inl StructError)"

definition pack_d :: "f64 \<Rightarrow> byte list" where
  "pack_d t = le_bytes 8 (unat t)"

definition pack_Idi :: "int \<Rightarrow> f64 \<Rightarrow> int \<Rightarrow> py_exn + byte list" where
  "pack_Idi msg_id send_time n =
     (case pack_I msg_id of
        Inl e \<Rightarrow> Inl e
      | Inr a \<Rightarrow>
          (case pack_i n of
             Inl e \<Rightarrow> Inl e
           | Inr c \<Rightarrow> Inr (a @ pack_d send_time @ c)))"

definition unpack_I :: "byte list \<Rightarrow> int" where
  "unpack_I bs = int (le_nat bs)"

definition unpack_i :: "byte list \<Rightarrow> int" where
  "unpack_i bs =
     (let u = int (le_nat bs) in if 2147483648 \<le> u then u - 4294967296 else u)"

definition unpack_d :: "byte list \<Rightarrow> f64" where
  "unpack_d bs = of_nat (le_nat bs)"

text \<open>\<open>struct.unpack('<Idi', b)\<close> raises \<open>struct.error\<close> unless \<open>b\<close> has 16 bytes.\<close>

definition unpack_Idi :: "byte list \<Rightarrow> py_exn + (int \<times> f64 \<times> int)" where
  "unpack_Idi bs =
     (if length bs \<noteq> 16 then Inl StructError
      else Inr (unpack_I (take 4 bs), unpack_d (take 8 (drop 4 bs)), unpack_i (drop 12 bs)))"

text \<open>
  Python's slice \<open>xs[a:b]\<close>: a negative bound counts from the end, and both bounds are
  clamped to \<open>0 .. len(xs)\<close>; an empty range gives the empty sequence.
\<close>

definition slice_bound :: "nat \<Rightarrow> int \<Rightarrow> nat" where
  "slice_bound l i = (if i < 0 then nat (max (i + int l) 0) else min (nat i) l)"

definition py_slice :: "'a list \<Rightarrow> int \<Rightarrow> int \<Rightarrow> 'a list" where
  "py_slice xs a b =
     (let s = slice_bound (length xs) a; e = slice_bound (length xs) b
      in take (e - s) (drop s xs))"

section \<open>Configuration and packet operations\<close>

datatype TransportMode = TCP | UDP

text \<open>
  The fields of \<open>BenchmarkConfig\<close> that the modelled functions read (host, port, the
  delays and the results file only name the peer, pace the sender and name the report).
\<close>

record BenchmarkConfig =
  mode :: TransportMode
  payload_size :: int
  max_packets :: int
  is_sender :: bool
  is_receiver :: bool
  print_logs :: bool
  log_frequency :: int

text \<open>
  \<open>_create_packet\<close>: \<open>now\<close> is the value \<open>time.time()\<close> returns.  \<open>b'a' * n\<close> is empty for
  \<open>n \<le> 0\<close>.  The function returns the frame and the send time.
\<close>

definition create_packet :: "BenchmarkConfig \<Rightarrow> f64 \<Rightarrow> int \<Rightarrow> py_exn + (byte list \<times> f64)" where
  "create_packet cfg now msg_id =
     (let send_time = now;
          payload = replicate (nat (payload_size cfg)) (97 :: byte)
      in case pack_Idi msg_id send_time (int (length payload)) of
           Inl e \<Rightarrow> Inl e
         | Inr header \<Rightarrow> Inr (header @ payload, send_time))"

text \<open>\<open>_parse_packet\<close>: the only check is the one on the length of the data.\<close>

definition parse_packet :: "byte list \<Rightarrow> py_exn + (int \<times> f64 \<times> byte list)" where
  "parse_packet data =
     (if length data < 16 then Inl ValueError
      else case unpack_Idi (py_slice data 0 16) of
             Inl e \<Rightarrow> Inl e
           | Inr (msg_id, send_time, payload_len) \<Rightarrow>
               Inr (msg_id, send_time, py_slice data 16 (16 + payload_len)))"

section \<open>Sockets\<close>

text \<open>
  What the network delivers to a socket is a script of events: a segment of bytes that
  has arrived, a read that times out, or a socket error.  On a stream socket an empty
  segment is the end of the stream: \<open>recv\<close> returns \<open>b''\<close> once the peer has closed, and
  goes on doing so.  \<open>recv(bufsize)\<close> returns at most \<open>bufsize\<close> bytes of the segment at
  the head and leaves the rest for the next read, so every segmentation of a byte stream
  is some script.  When the script is exhausted nothing arrives any more and a read
  times out.
\<close>

datatype sock_event = Data "byte list" | Timeout | Fault

type_synonym sock = "sock_event list"

fun recv :: "sock \<Rightarrow> nat \<Rightarrow> (py_exn + byte list) \<times> sock" where
  "recv [] bufsize = (Inl SocketTimeout, [])"
| "recv (Timeout # es) bufsize = (Inl SocketTimeout, es)"
| "recv (Fault # es) bufsize = (Inl OSError, es)"
| "recv (Data bs # es) bufsize =
     (if bs = [] then (Inr [], Data [] # es)
      else if length bs \<le> bufsize then (Inr bs, es)
      else (Inr (take bufsize bs), Data (drop bufsize bs) # es))"

text \<open>A datagram socket hands over one datagram per read, cut to the buffer size.\<close>

fun recvfrom :: "sock \<Rightarrow> nat \<Rightarrow> (py_exn + byte list) \<times> sock" where
  "recvfrom [] bufsize = (Inl SocketTimeout, [])"
| "recvfrom (Timeout # es) bufsize = (Inl SocketTimeout, es)"
| "recvfrom (Fault # es) bufsize = (Inl OSError, es)"
| "recvfrom (Data bs # es) bufsize = (Inr (take bufsize bs), es)"

text \<open>
  \<open>_recv_exactly\<close>: the loop \<open>while len(data) < n\<close>, with \<open>data\<close> the bytes read so far.
  An empty chunk and \<open>socket.timeout\<close> both return \<open>b''\<close>; any other exception leaves
  the function.
\<close>

function recv_exactly_from :: "sock \<Rightarrow> int \<Rightarrow> byte list \<Rightarrow> (py_exn + byte list) \<times> sock" where
  "recv_exactly_from s n data =
     (if int (length data) < n then
        (case recv s (nat (n - int (length data))) of
           (Inl e, s') \<Rightarrow> if e = SocketTimeout then (Inr [], s') else (Inl e, s')
         | (Inr chunk, s') \<Rightarrow>
             if chunk = [] then (Inr [], s')
             else recv_exactly_from s' n (data @ chunk))
      else (Inr data, s))"
  by pat_completeness auto
termination
  by (relation "measure (\<lambda>(s, n, data). nat (n - int (length data)))") auto

declare recv_exactly_from.simps [simp del]

definition recv_exactly :: "sock \<Rightarrow> int \<Rightarrow> (py_exn + byte list) \<times> sock" where
  "recv_exactly s n = recv_exactly_from s n []"

text \<open>
  The bytes of a script that a reader gets before the first timeout, error or end of
  stream.
\<close>

fun pending :: "sock \<Rightarrow> byte list" where
  "pending [] = []"
| "pending (Data bs # es) = (if bs = [] then [] else bs @ pending es)"
| "pending (Timeout # es) = []"
| "pending (Fault # es) = []"

text \<open>\<open>_recv_tcp_packet\<close>: only the header read is checked for emptiness.\<close>

definition recv_tcp_packet :: "sock \<Rightarrow> (py_exn + byte list) \<times> sock" where
  "recv_tcp_packet s =
     (case recv_exactly s 16 of
        (Inl e, s1) \<Rightarrow> (Inl e, s1)
      | (Inr header, s1) \<Rightarrow>
          if header = [] then (Inr [], s1)
          else (case unpack_Idi header of
                  Inl e \<Rightarrow> (Inl e, s1)
                | Inr (msg_id, send_time, payload_len) \<Rightarrow>
                    (case recv_exactly s1 payload_len of
                       (Inl e, s2) \<Rightarrow> (Inl e, s2)
                     | (Inr payload, s2) \<Rightarrow> (Inr (header @ payload), s2))))"

section \<open>The receiver loop\<close>

text \<open>
  Latencies are binary64 values computed as \<open>(recv_time - send_time) * 1000\<close>.  Float
  arithmetic is not modelled: the clock and the latency computation are parameters, and
  a latency is the rational number that the finite float denotes.
\<close>

record PacketMetrics =
  pm_msg_id :: int
  pm_send_time :: f64
  pm_recv_time :: f64
  pm_payload_size :: nat
  pm_latency_ms :: rat

record float_env =
  time_time :: "nat \<Rightarrow> f64"
  latency_of :: "f64 \<Rightarrow> f64 \<Rightarrow> rat"

text \<open>
  The state of \<open>_receiver_loop\<close> once a socket is there: the socket, the metrics list of
  the benchmark object, the two counters of the loop, and the number of clock reads.
\<close>

record receiver_state =
  sock :: sock
  metrics :: "PacketMetrics list"
  packets_received :: nat
  consecutive_timeouts :: nat
  clock_reads :: nat

datatype loop_exit = Cancelled | IdleLimit | Raised py_exn

definition max_timeouts :: nat where
  "max_timeouts = 20"

text \<open>
  An idle read, in both places where the loop counts one (\<open>if not data\<close> and
  \<open>except socket.timeout\<close>): the counter goes up and the loop breaks at the limit.
\<close>

definition idle_read :: "receiver_state \<Rightarrow> loop_exit option \<times> receiver_state" where
  "idle_read st =
     (let st' = st\<lparr>consecutive_timeouts := consecutive_timeouts st + 1\<rparr>
      in if consecutive_timeouts st' \<ge> max_timeouts then (Some IdleLimit, st') else (None, st'))"

text \<open>
  One pass through the body of \<open>while self.running\<close>.  \<open>None\<close> means that the loop goes to
  its next iteration; \<open>Some r\<close> is a \<open>break\<close>.  Every exception other than
  \<open>socket.timeout\<close> reaches \<open>except Exception\<close>, which breaks; this includes the
  \<open>ValueError\<close> of \<open>_parse_packet\<close> and the division by zero of
  \<open>msg_id % self.config.log_frequency\<close> when logging is on and the frequency is 0.
\<close>

definition receiver_iteration ::
  "BenchmarkConfig \<Rightarrow> float_env \<Rightarrow> receiver_state \<Rightarrow> loop_exit option \<times> receiver_state" where
  "receiver_iteration cfg env st =
     (case (if mode cfg = TCP then recv_tcp_packet (sock st) else recvfrom (sock st) 65535) of
        (Inl e, s') \<Rightarrow>
          if e = SocketTimeout then idle_read (st\<lparr>sock := s'\<rparr>)
          else (Some (Raised e), st\<lparr>sock := s'\<rparr>)
      | (Inr data, s') \<Rightarrow>
          if data = [] then idle_read (st\<lparr>sock := s'\<rparr>)
          else
            let recv_time = time_time env (clock_reads st);
                st1 = st\<lparr>sock := s', consecutive_timeouts := 0,
                         clock_reads := clock_reads st + 1\<rparr>
            in case parse_packet data of
                 Inl e \<Rightarrow> (Some (Raised e), st1)
               | Inr (msg_id, send_time, payload) \<Rightarrow>
                   let metric = \<lparr>pm_msg_id = msg_id, pm_send_time = send_time,
                                  pm_recv_time = recv_time,
                                  pm_payload_size = length payload,
                                  pm_latency_ms = latency_of env recv_time send_time\<rparr>;
                       st2 = st1\<lparr>metrics := metrics st1 @ [metric],
                                  packets_received := packets_received st1 + 1\<rparr>
                   in if print_logs cfg \<and> log_frequency cfg = 0
                      then (Some (Raised ZeroDivisionError), st2)
                      else (None, st2))"

text \<open>
  \<open>self.running\<close> is cleared by another thread.  The loop is given the number of times
  it finds the flag still set: with \<open>k\<close> such tests it runs at most \<open>k\<close> iterations and
  leaves as \<open>Cancelled\<close> when the flag is found cleared.
\<close>

fun receiver_loop ::
  "BenchmarkConfig \<Rightarrow> float_env \<Rightarrow> nat \<Rightarrow> receiver_state \<Rightarrow> loop_exit \<times> receiver_state" where
  "receiver_loop cfg env 0 st = (Cancelled, st)"
| "receiver_loop cfg env (Suc k) st =
     (case receiver_iteration cfg env st of
        (Some r, st') \<Rightarrow> (r, st')
      | (None, st') \<Rightarrow> receiver_loop cfg env k st')"

section \<open>Connection setup\<close>

text \<open>
  \<open>_setup_tcp\<close>.  The network decides whether the server socket can be bound and what
  each call of \<open>connect\<close> does.  The trace counts the calls of \<open>connect\<close> and of
  \<open>time.sleep(1)\<close>.
\<close>

datatype connect_result = Connected | Refused | ConnectError

record net_env =
  bind_ok :: bool
  connect_outcome :: "nat \<Rightarrow> connect_result"

record setup_trace =
  listening :: bool
  connected :: bool
  connect_calls :: nat
  seconds_slept :: nat

definition max_retries :: nat where
  "max_retries = 10"

function connect_with_retries ::
  "(nat \<Rightarrow> connect_result) \<Rightarrow> nat \<Rightarrow> setup_trace \<Rightarrow> (py_exn + unit) \<times> setup_trace" where
  "connect_with_retries outcome attempt tr =
     (if attempt < max_retries then
        (let tr1 = tr\<lparr>connect_calls := connect_calls tr + 1\<rparr> in
         case outcome attempt of
           Connected \<Rightarrow> (Inr (), tr1\<lparr>connected := True\<rparr>)
         | Refused \<Rightarrow>
             if attempt < max_retries - 1
             then connect_with_retries outcome (attempt + 1)
                    (tr1\<lparr>seconds_slept := seconds_slept tr1 + 1\<rparr>)
             else (Inl ConnectionRefusedError, tr1)
         | ConnectError \<Rightarrow> (Inl OSError, tr1))
      else (Inr (), tr))"
  by pat_completeness auto
termination
  by (relation "measure (\<lambda>(outcome, attempt, tr). max_retries - attempt)") auto

declare connect_with_retries.simps [simp del]

definition setup_tcp :: "BenchmarkConfig \<Rightarrow> net_env \<Rightarrow> (py_exn + unit) \<times> setup_trace" where
  "setup_tcp cfg env =
     (let tr0 = \<lparr>listening = False, connected = False, connect_calls = 0, seconds_slept = 0\<rparr>
      in if is_receiver cfg \<and> \<not> bind_ok env then (Inl OSError, tr0)
         else let tr1 = (if is_receiver cfg then tr0\<lparr>listening := True\<rparr> else tr0)
              in if is_sender cfg then connect_with_retries (connect_outcome env) 0 tr1
                 else (Inr (), tr1))"

section \<open>Results\<close>






definition int_of_product :: "nat \<Rightarrow> rat \<Rightarrow> nat" where
  "int_of_product n c = nat \<lfloor>of_nat n * c\<rfloor>"

text \<open>
  The same product as the interpreter computes it.  \<open>0.95\<close> and \<open>0.99\<close> are the
  binary64 numbers \<open>m / 2^53\<close> with \<open>m = 8556839292003942\<close> and
  \<open>m = 8917127262193582\<close>; a length \<open>n < 2^53\<close> converts exactly; the product
  \<open>n * m / 2^53\<close> is rounded to 53 significant bits, ties to even, and \<open>int\<close>
  truncates it.  \<open>f64_round N\<close> is the rounded numerator over \<open>2^53\<close>.
\<close>

fun bit_length :: "nat \<Rightarrow> nat" where
  "bit_length n = (if n = 0 then 0 else Suc (bit_length (n div 2)))"

declare bit_length.simps [simp del]

definition f64_round :: "nat \<Rightarrow> nat" where
  "f64_round N =
     (if bit_length N \<le> 53 then N
      else let s = bit_length N - 53; q = N div 2 ^ s; r = N mod 2 ^ s
           in if 2 * r < 2 ^ s \<or> (2 * r = 2 ^ s \<and> even q) then q * 2 ^ s
              else (q + 1) * 2 ^ s)"

definition float_product_truncated :: "nat \<Rightarrow> nat \<Rightarrow> nat" where
  "float_product_truncated n m = f64_round (n * m) div 2 ^ 53"




section \<open>Concrete inputs\<close>

definition cfg0 :: BenchmarkConfig where
  "cfg0 = \<lparr>mode = TCP, payload_size = 3, max_packets = 1000, is_sender = True,
     is_receiver = True, print_logs = True, log_frequency = 10\<rparr>"

definition cfg_udp :: BenchmarkConfig where
  "cfg_udp = cfg0\<lparr>mode := UDP\<rparr>"

definition env0 :: float_env where
  "env0 = \<lparr>time_time = (\<lambda>k. 0), latency_of = (\<lambda>r s. 0)\<rparr>"

definition st_of :: "sock \<Rightarrow> receiver_state" where
  "st_of s = \<lparr>sock = s, metrics = [], packets_received = 0, consecutive_timeouts = 0,
     clock_reads = 0\<rparr>"

text \<open>
  A header with id 1 and length 4; a stream that ends two bytes into the payload of that
  header; a header with length -1; a datagram that declares 100 payload bytes and
  carries 3.
\<close>

definition hdr4 :: "byte list" where
  "hdr4 = [1, 0, 0, 0, 0, 0, 0, 0, 0, 0, 0, 0, 4, 0, 0, 0]"


definition neg_len_header :: "byte list" where
  "neg_len_header = [1, 0, 0, 0, 0, 0, 0, 0, 0, 0, 0, 0, 255, 255, 255, 255]"

definition short_datagram :: "byte list" where
  "short_datagram = [7, 0, 0, 0, 0, 0, 0, 0, 0, 0, 0, 0, 100, 0, 0, 0, 97, 97, 97]"


definition net_refusing :: net_env where
  "net_refusing = \<lparr>bind_ok = True, connect_outcome = (\<lambda>i. Refused)\<rparr>"

definition net_ready_at_3 :: net_env where
  "net_ready_at_3 =
     \<lparr>bind_ok = True, connect_outcome = (\<lambda>i. if i < 3 then Refused else Connected)\<rparr>"

section \<open>The codec\<close>

lemma length_le_bytes: "length (le_bytes k n) = k"
  by (induction k arbitrary: n) simp_all

lemma le_nat_le_bytes: "le_nat (le_bytes k n) = n mod 256 ^ k"
proof (induction k arbitrary: n)
  case 0
  then show ?case by simp
next
  case (Suc k)
  have "unat (of_nat (n mod 256) :: byte) = n mod 256"
    by (simp add: unat_of_nat)
  then have "le_nat (le_bytes (Suc k) n) = n mod 256 + 256 * ((n div 256) mod 256 ^ k)"
    by (simp add: Suc.IH)
  also have "\<dots> = n mod 256 ^ Suc k"
    by (simp add: mod_mult2_eq)
  finally show ?case .
qed

lemma le_nat_bound: "le_nat bs < 256 ^ length bs"
proof (induction bs)
  case Nil
  then show ?case by simp
next
  case (Cons b bs)
  have "unat b < 2 ^ LENGTH(8)"
    by (rule unsigned_less)
  then have "unat b < 256"
    by simp
  moreover have "le_nat bs + 1 \<le> 256 ^ length bs"
    using Cons.IH by simp
  then have "256 * le_nat bs + 256 \<le> 256 * 256 ^ length bs"
    by simp
  ultimately show ?case by simp
qed

lemma le_bytes_le_nat: "le_bytes (length bs) (le_nat bs) = bs"
proof (induction bs)
  case Nil
  then show ?case by simp
next
  case (Cons b bs)
  have b: "unat b < 2 ^ LENGTH(8)"
    by (rule unsigned_less)
  then have "(unat b + 256 * le_nat bs) mod 256 = unat b"
    by simp
  moreover have "(unat b + 256 * le_nat bs) div 256 = le_nat bs"
    using b by simp
  ultimately show ?case
    by (simp add: Cons.IH)
qed

lemma unpack_I_pack_I: "pack_I x = Inr bs \<Longrightarrow> length bs = 4 \<and> unpack_I bs = x"
  by (auto simp: pack_I_def unpack_I_def le_nat_le_bytes length_le_bytes split: if_splits)

lemma unpack_i_pack_i: "pack_i x = Inr bs \<Longrightarrow> length bs = 4 \<and> unpack_i bs = x"
proof -
  assume a: "pack_i x = Inr bs"
  then have r: "- 2147483648 \<le> x" "x < 2147483648"
    and bs: "bs = le_bytes 4 (nat (x mod 4294967296))"
    by (auto simp: pack_i_def split: if_splits)
  have m: "0 \<le> x mod 4294967296" "x mod 4294967296 < 4294967296"
    by simp_all
  have "le_nat bs = nat (x mod 4294967296) mod 256 ^ 4"
    by (simp add: bs le_nat_le_bytes)
  also have "\<dots> = nat (x mod 4294967296)"
    using m by simp
  finally have u: "int (le_nat bs) = x mod 4294967296"
    using m by simp
  have "x mod 4294967296 = (if x < 0 then x + 4294967296 else x)"
  proof (cases "x < 0")
    case True
    have "(x + 4294967296) mod 4294967296 = x + 4294967296"
      using r True by (intro mod_pos_pos_trivial) simp_all
    moreover have "(x + 4294967296) mod 4294967296 = x mod 4294967296"
      by simp
    ultimately show ?thesis
      using True by simp
  next
    case False
    then show ?thesis
      using r by simp
  qed
  with u r have "unpack_i bs = x"
    by (simp add: unpack_i_def Let_def)
  then show ?thesis
    by (simp add: bs length_le_bytes)
qed

lemma unpack_d_pack_d: "length (pack_d t) = 8 \<and> unpack_d (pack_d t) = t"
proof -
  have "unat t < 2 ^ LENGTH(64)"
    by (rule unsigned_less)
  then have "unat t mod 256 ^ 8 = unat t"
    by simp
  then show ?thesis
    by (simp add: pack_d_def unpack_d_def le_nat_le_bytes length_le_bytes)
qed

lemma unpack_Idi_pack_Idi:
  assumes "pack_Idi msg_id send_time n = Inr h"
  shows "length h = 16 \<and> unpack_Idi h = Inr (msg_id, send_time, n)"
proof -
  from assms obtain a c where a: "pack_I msg_id = Inr a" and c: "pack_i n = Inr c"
    and h: "h = a @ pack_d send_time @ c"
    by (auto simp: pack_Idi_def split: sum.splits)
  note la = unpack_I_pack_I [OF a] and lc = unpack_i_pack_i [OF c]
    and ld = unpack_d_pack_d [of send_time]
  have "length h = 16"
    using la lc ld by (simp add: h)
  moreover have "take 4 h = a" "take 8 (drop 4 h) = pack_d send_time" "drop 12 h = c"
    using la lc ld by (simp_all add: h)
  ultimately show ?thesis
    using la lc ld by (simp add: unpack_Idi_def)
qed

lemma py_slice_header: "16 \<le> length xs \<Longrightarrow> py_slice xs 0 16 = take 16 xs"
  by (simp add: py_slice_def slice_bound_def)

lemma py_slice_nonneg:
  "0 \<le> n \<Longrightarrow> py_slice xs 16 (16 + n) = take (nat n) (drop 16 xs)"
proof -
  assume n: "0 \<le> n"
  let ?l = "length xs"
  have "take (min (nat (16 + n)) ?l - min 16 ?l) (drop (min 16 ?l) xs)
      = take (nat n) (drop 16 xs)"
  proof (cases "16 \<le> ?l")
    case True
    then have "min (nat (16 + n)) ?l - 16 = min (nat n) (?l - 16)"
      using n by (simp add: min_def nat_add_distrib)
    then show ?thesis
      using True by (simp add: min_def)
  next
    case False
    then show ?thesis by simp
  qed
  then show ?thesis
    using n by (simp add: py_slice_def slice_bound_def)
qed

lemma parse_frame:
  assumes h: "pack_Idi msg_id send_time (int (length p)) = Inr h"
  shows "parse_packet (h @ p) = Inr (msg_id, send_time, p)"
proof -
  note u = unpack_Idi_pack_Idi [OF h]
  have "py_slice (h @ p) 0 16 = h"
    using u by (simp add: py_slice_header)
  moreover have "py_slice (h @ p) 16 (16 + int (length p)) = p"
    using u by (simp add: py_slice_nonneg)
  ultimately show ?thesis
    using u by (simp add: parse_packet_def)
qed

lemma pack_Idi_ok:
  assumes "0 \<le> msg_id" "msg_id < 4294967296" "0 \<le> n" "n < 2147483648"
  shows "\<exists>h. pack_Idi msg_id send_time n = Inr h \<and> length h = 16"
proof -
  from assms obtain h where h: "pack_Idi msg_id send_time n = Inr h"
    by (auto simp: pack_Idi_def pack_I_def pack_i_def)
  with unpack_Idi_pack_Idi [OF h] show ?thesis
    by blast
qed

text \<open>
  C1.  For a message id in the unsigned 32-bit range and a payload whose length fits the
  length field of the header (the field is the signed 32-bit \<open>i\<close>, so at most
  \<open>2^31 - 1\<close> bytes), \<open>_create_packet\<close> builds a frame from which \<open>_parse_packet\<close>
  recovers the same id, the same timestamp bits and the same payload bytes.  The same
  holds for a header packed for any payload bytes \<open>p\<close>, not only the \<open>b'a' * n\<close> of the
  sender.
\<close>

theorem create_parse_roundtrip:
  assumes "0 \<le> msg_id" "msg_id < 4294967296"
    and "payload = replicate (nat (payload_size cfg)) (97 :: byte)"
    and "length payload < 2147483648"
    and "length p < 2147483648"
  shows "(\<exists>pkt. create_packet cfg now msg_id = Inr (pkt, now)
           \<and> parse_packet pkt = Inr (msg_id, now, payload))
     \<and> (\<exists>header. pack_Idi msg_id now (int (length p)) = Inr header
           \<and> parse_packet (header @ p) = Inr (msg_id, now, p))"
proof -
  have "0 \<le> int (length payload)" "int (length payload) < 2147483648"
    using assms(4) by simp_all
  with assms(1,2) have "\<exists>h. pack_Idi msg_id now (int (length payload)) = Inr h \<and> length h = 16"
    by (rule pack_Idi_ok)
  then obtain h where h: "pack_Idi msg_id now (int (length payload)) = Inr h"
    by blast
  then have "create_packet cfg now msg_id = Inr (h @ payload, now)"
    using assms(3) by (simp add: create_packet_def)
  with parse_frame [OF h]
  have A: "\<exists>pkt. create_packet cfg now msg_id = Inr (pkt, now)
           \<and> parse_packet pkt = Inr (msg_id, now, payload)"
    by simp
  have "0 \<le> int (length p)" "int (length p) < 2147483648"
    using assms(5) by simp_all
  with assms(1,2) have "\<exists>h. pack_Idi msg_id now (int (length p)) = Inr h \<and> length h = 16"
    by (rule pack_Idi_ok)
  then obtain h' where h': "pack_Idi msg_id now (int (length p)) = Inr h'"
    by blast
  with parse_frame [OF h'] have "\<exists>header. pack_Idi msg_id now (int (length p)) = Inr header
           \<and> parse_packet (header @ p) = Inr (msg_id, now, p)"
    by simp
  with A show ?thesis
    by simp
qed

theorem create_parse_roundtrip_witness:
  "(\<exists>pkt. create_packet cfg0 0 7 = Inr (pkt, 0)
      \<and> parse_packet pkt = Inr (7, 0, [97, 97, 97]))
   \<and> (\<exists>header. pack_Idi 7 0 2 = Inr header
      \<and> parse_packet (header @ [0, 255]) = Inr (7, 0, [0, 255]))"
  using create_parse_roundtrip [of 7 "[97, 97, 97]" cfg0 "[0, 255]" 0]
  by (simp add: cfg0_def numeral_3_eq_3)




lemma unpack_header:
  assumes "16 \<le> length data"
  shows "unpack_Idi (py_slice data 0 16)
      = Inr (unpack_I (take 4 data), unpack_d (take 8 (drop 4 data)),
             unpack_i (take 4 (drop 12 data)))"
proof -
  have "drop 12 (take 16 data) = take 4 (drop 12 data)"
    by (simp add: drop_take)
  then show ?thesis
    using assms by (simp add: py_slice_header unpack_Idi_def drop_take min_def)
qed

lemma parse_packet_nonneg:
  assumes "16 \<le> length data" "0 \<le> unpack_i (take 4 (drop 12 data))"
  shows "parse_packet data
      = Inr (unpack_I (take 4 data), unpack_d (take 8 (drop 4 data)),
             take (nat (unpack_i (take 4 (drop 12 data)))) (drop 16 data))"
  using assms by (simp add: parse_packet_def unpack_header py_slice_nonneg)

text \<open>
  C7.  \<open>_parse_packet\<close> fails, with \<open>ValueError\<close>, exactly when fewer than 16 bytes are
  supplied.  On every input of at least 16 bytes it returns the decoded id, timestamp
  and payload: the payload is the slice \<open>data[16:16+payload_len]\<close>, which for a
  non-negative length field is at most that many bytes after the header, and for a
  negative one is a slice with a bound counted from the end.
\<close>

theorem parse_packet_total:
  "parse_packet data =
     (if length data < 16 then Inl ValueError
      else let payload_len = unpack_i (take 4 (drop 12 data)) in
        Inr (unpack_I (take 4 data), unpack_d (take 8 (drop 4 data)),
             if 0 \<le> payload_len then take (nat payload_len) (drop 16 data)
             else py_slice data 16 (16 + payload_len)))"
proof (cases "length data < 16")
  case True
  then show ?thesis
    by (simp add: parse_packet_def)
next
  case False
  then have l: "16 \<le> length data"
    by simp
  show ?thesis
  proof (cases "0 \<le> unpack_i (take 4 (drop 12 data))")
    case True
    with l parse_packet_nonneg [of data] show ?thesis
      by (simp add: Let_def)
  next
    case False
    with l show ?thesis
      by (simp add: parse_packet_def unpack_header Let_def)
  qed
qed

theorem parse_packet_total_witness:
  "parse_packet [1, 2, 3] = Inl ValueError
   \<and> parse_packet (hdr4 @ [9, 8, 7, 6, 5]) = Inr (1, 0, [9, 8, 7, 6])"
  using parse_packet_total [of "[1, 2, 3]"] parse_packet_total [of "hdr4 @ [9, 8, 7, 6, 5]"]
  by (simp add: hdr4_def unpack_i_def unpack_I_def unpack_d_def)

text \<open>
  A header of 16 bytes whose length field is \<open>-1\<close> is decoded without an error, with an
  empty payload.
\<close>

theorem parse_packet_negative_length:
  "length neg_len_header = 16
   \<and> unpack_i (drop 12 neg_len_header) = - 1
   \<and> parse_packet neg_len_header = Inr (1, 0, [])"
  by (simp add: neg_len_header_def parse_packet_def unpack_Idi_def py_slice_def
      slice_bound_def unpack_i_def unpack_I_def unpack_d_def)

section \<open>Reading from a stream\<close>








text \<open>
  When the stream holds the \<open>n\<close> bytes before anything else happens, they are what is
  returned, in order, however they are cut into segments.
\<close>

lemma recv_exactly_from_pending:
  "n - int (length data) \<le> int (length (pending s)) \<Longrightarrow> int (length data) \<le> n
     \<Longrightarrow> fst (recv_exactly_from s n data)
         = Inr (data @ take (nat (n - int (length data))) (pending s))"
proof (induction s n data rule: recv_exactly_from.induct)
  case (1 s n data)
  show ?case
  proof (cases "int (length data) < n")
    case False
    with "1.prems" show ?thesis
      by (simp add: recv_exactly_from.simps [of s n data])
  next
    case True
    define k where "k = nat (n - int (length data))"
    have k: "0 < k" "k \<le> length (pending s)" "int k = n - int (length data)"
      using True "1.prems" by (simp_all add: k_def)
    then obtain bs es where s: "s = Data bs # es" and bs: "bs \<noteq> []"
      by (cases s rule: pending.cases) (auto split: if_splits)
    show ?thesis
    proof (cases "length bs \<le> k")
      case le: True
      have r: "recv s k = (Inr bs, es)"
        using s bs le by simp
      have "fst (recv_exactly_from es n (data @ bs))
          = Inr ((data @ bs) @ take (nat (n - int (length (data @ bs)))) (pending es))"
        using k le s bs "1.prems"
        by (intro "1.IH" [OF True _ _ bs, of "Inr bs" es]) (simp_all add: r k_def [symmetric])
      moreover have "recv_exactly_from s n data = recv_exactly_from es n (data @ bs)"
        using True r bs by (simp add: recv_exactly_from.simps [of s n data] k_def [symmetric])
      moreover have "nat (n - int (length (data @ bs))) = k - length bs"
        using k le by simp
      ultimately show ?thesis
        using s bs le by (simp add: k_def [symmetric])
    next
      case gt: False
      have r: "recv s k = (Inr (take k bs), Data (drop k bs) # es)"
        using s bs gt by simp
      have ne: "take k bs \<noteq> []"
        using k(1) bs by (cases bs) simp_all
      have l: "int (length (data @ take k bs)) = n"
        using gt k by simp
      have "recv_exactly_from s n data
          = recv_exactly_from (Data (drop k bs) # es) n (data @ take k bs)"
        using True r ne by (simp add: recv_exactly_from.simps [of s n data] k_def [symmetric])
      also have "\<dots> = (Inr (data @ take k bs), Data (drop k bs) # es)"
        using l by (simp add: recv_exactly_from.simps [of _ n "data @ take k bs"])
      finally show ?thesis
        using s bs gt by (simp add: k_def [symmetric])
    qed
  qed
qed

lemma recv_exactly_reassembles:
  assumes "0 \<le> n" "nat n \<le> length (pending s)"
  shows "fst (recv_exactly s n) = Inr (take (nat n) (pending s))"
  using recv_exactly_from_pending [of n "[]" s] assms by (simp add: recv_exactly_def)

lemma reassembly_example:
  "pending [Data [1, 2, 3], Data [4], Data [5], Data [6, 7], Timeout] = [1, 2, 3, 4, 5, 6, 7]
   \<and> fst (recv_exactly [Data [1, 2, 3], Data [4], Data [5], Data [6, 7], Timeout] 6)
       = Inr [1, 2, 3, 4, 5, 6]"
  by (simp add: recv_exactly_reassembles)

section \<open>The receiver loop on closed, truncated and short input\<close>











text \<open>
  C6.  In datagram mode, a datagram of at least 16 bytes whose declared payload length
  exceeds the payload bytes present is decoded without an error: the payload is the
  bytes present.  A metric with that payload size is appended and the loop continues
  with the next datagram (logging being off or its frequency not 0).
\<close>

theorem datagram_short_payload_is_recorded:
  assumes "mode cfg = UDP" "sock st = Data d # es"
    and "16 \<le> length d" "length d \<le> 65535"
    and "int (length d) - 16 < unpack_i (take 4 (drop 12 d))"
    and "print_logs cfg \<longrightarrow> log_frequency cfg \<noteq> 0"
  shows "parse_packet d
           = Inr (unpack_I (take 4 d), unpack_d (take 8 (drop 4 d)), drop 16 d)
       \<and> receiver_iteration cfg env st
           = (None, st\<lparr>sock := es, consecutive_timeouts := 0,
                 clock_reads := clock_reads st + 1,
                 metrics := metrics st @
                   [\<lparr>pm_msg_id = unpack_I (take 4 d),
                     pm_send_time = unpack_d (take 8 (drop 4 d)),
                     pm_recv_time = time_time env (clock_reads st),
                     pm_payload_size = length d - 16,
                     pm_latency_ms = latency_of env (time_time env (clock_reads st))
                       (unpack_d (take 8 (drop 4 d)))\<rparr>],
                 packets_received := packets_received st + 1\<rparr>)
       \<and> receiver_loop cfg env (Suc k) st
           = receiver_loop cfg env k (snd (receiver_iteration cfg env st))"
proof -
  have n: "0 \<le> unpack_i (take 4 (drop 12 d))" "length d - 16 \<le> nat (unpack_i (take 4 (drop 12 d)))"
    using assms(3,5) by simp_all
  have p: "parse_packet d = Inr (unpack_I (take 4 d), unpack_d (take 8 (drop 4 d)), drop 16 d)"
    using assms(3) n by (simp add: parse_packet_nonneg)
  have d: "d \<noteq> []" "take 65535 d = d"
    using assms(3,4) by auto
  have it: "receiver_iteration cfg env st
           = (None, st\<lparr>sock := es, consecutive_timeouts := 0,
                 clock_reads := clock_reads st + 1,
                 metrics := metrics st @
                   [\<lparr>pm_msg_id = unpack_I (take 4 d),
                     pm_send_time = unpack_d (take 8 (drop 4 d)),
                     pm_recv_time = time_time env (clock_reads st),
                     pm_payload_size = length d - 16,
                     pm_latency_ms = latency_of env (time_time env (clock_reads st))
                       (unpack_d (take 8 (drop 4 d)))\<rparr>],
                 packets_received := packets_received st + 1\<rparr>)"
    using assms(1,2,6) d p by (simp add: receiver_iteration_def Let_def)
  then have "receiver_loop cfg env (Suc k) st
           = receiver_loop cfg env k (snd (receiver_iteration cfg env st))"
    by simp
  with p it show ?thesis
    by simp
qed

theorem datagram_short_payload_is_recorded_witness:
  "parse_packet short_datagram = Inr (7, 0, [97, 97, 97])
   \<and> fst (receiver_iteration cfg_udp env0 (st_of [Data short_datagram])) = None
   \<and> receiver_loop cfg_udp env0 2 (st_of [Data short_datagram])
      = receiver_loop cfg_udp env0 1
          (snd (receiver_iteration cfg_udp env0 (st_of [Data short_datagram])))"
proof -
  have a: "sock (st_of [Data short_datagram]) = Data short_datagram # []"
    by (simp add: st_of_def)
  have b: "int (length short_datagram) - 16 < unpack_i (take 4 (drop 12 short_datagram))"
    by (simp add: short_datagram_def unpack_i_def)
  have c: "unpack_I (take 4 short_datagram) = 7" "unpack_d (take 8 (drop 4 short_datagram)) = 0"
    "drop 16 short_datagram = [97, 97, 97]"
    by (simp_all add: short_datagram_def unpack_I_def unpack_d_def)
  have "mode cfg_udp = UDP" "16 \<le> length short_datagram" "length short_datagram \<le> 65535"
    "print_logs cfg_udp \<longrightarrow> log_frequency cfg_udp \<noteq> 0"
    by (simp_all add: cfg_udp_def cfg0_def short_datagram_def)
  from datagram_short_payload_is_recorded [OF this(1) a this(2,3) b this(4), of env0 1]
  show ?thesis
    by (simp add: c numeral_2_eq_2)
qed

text \<open>
  A datagram that declares 100 payload bytes and carries 3 is parsed, and a metric with
  payload size 3 is appended.
\<close>

theorem datagram_short_payload_accepted:
  "unpack_i (take 4 (drop 12 short_datagram)) = 100
   \<and> length short_datagram - 16 = 3
   \<and> parse_packet short_datagram = Inr (7, 0, [97, 97, 97])
   \<and> receiver_iteration cfg_udp env0 (st_of [Data short_datagram])
       = (None, \<lparr>sock = [], metrics = [\<lparr>pm_msg_id = 7, pm_send_time = 0, pm_recv_time = 0,
            pm_payload_size = 3, pm_latency_ms = 0\<rparr>], packets_received = 1,
            consecutive_timeouts = 0, clock_reads = 1\<rparr>)"
  by (simp add: receiver_iteration_def cfg_udp_def cfg0_def env0_def st_of_def
      parse_packet_nonneg short_datagram_def unpack_i_def unpack_I_def unpack_d_def Let_def)

section \<open>Connecting with retries\<close>

lemma connect_refused_prefix:
  assumes "\<forall>i<d. outcome (a + i) = Refused" "a + d < max_retries"
  shows "connect_with_retries outcome a tr
     = connect_with_retries outcome (a + d)
         (tr\<lparr>connect_calls := connect_calls tr + d,
             seconds_slept := seconds_slept tr + d\<rparr>)"
  using assms
proof (induction d arbitrary: a tr)
  case 0
  then show ?case by simp
next
  case (Suc d)
  from Suc.prems have a: "outcome a = Refused" "a < max_retries - 1" "a < max_retries"
    by (auto dest: spec [of _ 0])
  let ?tr = "tr\<lparr>connect_calls := connect_calls tr + 1,
                 seconds_slept := seconds_slept tr + 1\<rparr>"
  have "\<forall>i<d. outcome (a + 1 + i) = Refused"
  proof (intro allI impI)
    fix i assume "i < d"
    then have "outcome (a + Suc i) = Refused"
      using Suc.prems(1) by (auto dest: spec [of _ "Suc i"])
    then show "outcome (a + 1 + i) = Refused"
      by simp
  qed
  moreover have "a + 1 + d < max_retries"
    using Suc.prems(2) by simp
  ultimately have "connect_with_retries outcome (a + 1) ?tr
     = connect_with_retries outcome (a + 1 + d)
         (?tr\<lparr>connect_calls := connect_calls ?tr + d,
             seconds_slept := seconds_slept ?tr + d\<rparr>)"
    by (rule Suc.IH)
  moreover have "connect_with_retries outcome a tr = connect_with_retries outcome (a + 1) ?tr"
    using a by (simp add: connect_with_retries.simps [of outcome a tr] Let_def)
  ultimately show ?case
    by simp
qed

lemma connect_first_success:
  assumes "\<forall>i<k. outcome i = Refused" "outcome k = Connected" "k < max_retries"
  shows "connect_with_retries outcome 0 tr
     = (Inr (), tr\<lparr>connect_calls := connect_calls tr + (k + 1),
             seconds_slept := seconds_slept tr + k, connected := True\<rparr>)"
proof -
  have "connect_with_retries outcome 0 tr
     = connect_with_retries outcome (0 + k)
         (tr\<lparr>connect_calls := connect_calls tr + k,
             seconds_slept := seconds_slept tr + k\<rparr>)"
    using assms by (intro connect_refused_prefix) auto
  then show ?thesis
    using assms(2,3) by (simp add: connect_with_retries.simps [of outcome k] Let_def)
qed

lemma connect_all_refused:
  assumes "\<forall>i<max_retries. outcome i = Refused"
  shows "connect_with_retries outcome 0 tr
     = (Inl ConnectionRefusedError,
        tr\<lparr>connect_calls := connect_calls tr + max_retries,
           seconds_slept := seconds_slept tr + (max_retries - 1)\<rparr>)"
proof -
  define l where "l = max_retries - 1"
  have l: "l < max_retries" "\<not> l < max_retries - 1" "max_retries = l + 1"
    by (simp_all add: l_def max_retries_def)
  have "connect_with_retries outcome 0 tr
     = connect_with_retries outcome (0 + l)
         (tr\<lparr>connect_calls := connect_calls tr + l,
             seconds_slept := seconds_slept tr + l\<rparr>)"
    using assms l(1) by (intro connect_refused_prefix) auto
  moreover have "outcome l = Refused"
    using assms l(1) by simp
  ultimately have "connect_with_retries outcome 0 tr
     = (Inl ConnectionRefusedError,
        tr\<lparr>connect_calls := connect_calls tr + l + 1,
           seconds_slept := seconds_slept tr + l\<rparr>)"
    using l(1,2) by (simp add: connect_with_retries.simps [of outcome l] Let_def)
  moreover have "connect_calls tr + l + 1 = connect_calls tr + max_retries"
    "seconds_slept tr + l = seconds_slept tr + (max_retries - 1)"
    by (simp_all add: l_def max_retries_def)
  ultimately show ?thesis
    by metis
qed

lemma connect_refused_error_only_at_end:
  assumes "connect_with_retries outcome a tr = (Inl ConnectionRefusedError, tr')"
    and "a < max_retries"
  shows "(\<forall>i. a \<le> i \<and> i < max_retries \<longrightarrow> outcome i = Refused)
     \<and> connect_calls tr' = connect_calls tr + (max_retries - a)"
  using assms
proof (induction outcome a tr rule: connect_with_retries.induct)
  case (1 outcome attempt tr)
  let ?tr1 = "tr\<lparr>connect_calls := connect_calls tr + 1\<rparr>"
  from "1.prems" have r: "outcome attempt = Refused"
    by (cases "outcome attempt")
      (simp_all add: connect_with_retries.simps [of outcome attempt tr] Let_def)
  show ?case
  proof (cases "attempt < max_retries - 1")
    case True
    let ?tr2 = "?tr1\<lparr>seconds_slept := seconds_slept ?tr1 + 1\<rparr>"
    have "connect_with_retries outcome (attempt + 1) ?tr2 = (Inl ConnectionRefusedError, tr')"
      using "1.prems" r True
      by (simp add: connect_with_retries.simps [of outcome attempt tr] Let_def)
    with "1.IH" [OF "1.prems"(2) refl r True] True
    have ih: "(\<forall>i. attempt + 1 \<le> i \<and> i < max_retries \<longrightarrow> outcome i = Refused)"
      "connect_calls tr' = connect_calls ?tr2 + (max_retries - (attempt + 1))"
      by auto
    have "\<forall>i. attempt \<le> i \<and> i < max_retries \<longrightarrow> outcome i = Refused"
    proof (intro allI impI)
      fix i assume "attempt \<le> i \<and> i < max_retries"
      then show "outcome i = Refused"
        using ih(1) r by (cases "i = attempt") auto
    qed
    then show ?thesis
      using ih(2) True by simp
  next
    case False
    with "1.prems" have e: "attempt = max_retries - 1"
      by simp
    have "tr' = ?tr1"
      using "1.prems" r False
      by (simp add: connect_with_retries.simps [of outcome attempt tr] Let_def)
    moreover have "\<forall>i. attempt \<le> i \<and> i < max_retries \<longrightarrow> outcome i = Refused"
    proof (intro allI impI)
      fix i assume "attempt \<le> i \<and> i < max_retries"
      with e have "i = attempt"
        by (simp add: max_retries_def)
      with r show "outcome i = Refused"
        by simp
    qed
    ultimately show ?thesis
      using e "1.prems"(2) by simp
  qed
qed

text \<open>
  C8.  The sender's stream setup calls \<open>connect\<close> at most 10 times, sleeping one second
  after each refusal but the last.  When all 10 calls are refused the
  \<open>ConnectionRefusedError\<close> of the last one escapes, after 10 calls and 9 sleeps; when
  the call of index \<open>k < 10\<close> is the first that is not refused and it succeeds, the
  setup completes without an error after \<open>k + 1\<close> calls and \<open>k\<close> sleeps; and the refusal
  escapes only when all 10 calls were refused.
\<close>

theorem setup_tcp_retries:
  assumes "is_sender cfg" "is_receiver cfg \<longrightarrow> bind_ok env"
  shows
    "((\<forall>i<10. connect_outcome env i = Refused) \<longrightarrow>
        fst (setup_tcp cfg env) = Inl ConnectionRefusedError
        \<and> connect_calls (snd (setup_tcp cfg env)) = 10
        \<and> seconds_slept (snd (setup_tcp cfg env)) = 9)
   \<and> (\<forall>k<10. (\<forall>i<k. connect_outcome env i = Refused) \<and> connect_outcome env k = Connected \<longrightarrow>
        fst (setup_tcp cfg env) = Inr ()
        \<and> connected (snd (setup_tcp cfg env))
        \<and> connect_calls (snd (setup_tcp cfg env)) = k + 1
        \<and> seconds_slept (snd (setup_tcp cfg env)) = k)
   \<and> (fst (setup_tcp cfg env) = Inl ConnectionRefusedError \<longrightarrow>
        (\<forall>i<10. connect_outcome env i = Refused)
        \<and> connect_calls (snd (setup_tcp cfg env)) = 10)"
proof -
  define tr1 where "tr1 = (if is_receiver cfg
    then \<lparr>listening = True, connected = False, connect_calls = 0, seconds_slept = 0\<rparr>
    else \<lparr>listening = False, connected = False, connect_calls = 0, seconds_slept = 0\<rparr>)"
  have s: "setup_tcp cfg env = connect_with_retries (connect_outcome env) 0 tr1"
    using assms by (simp add: setup_tcp_def tr1_def Let_def)
  have z: "connect_calls tr1 = 0" "seconds_slept tr1 = 0"
    by (simp_all add: tr1_def)
  have A: "fst (setup_tcp cfg env) = Inl ConnectionRefusedError
        \<and> connect_calls (snd (setup_tcp cfg env)) = 10
        \<and> seconds_slept (snd (setup_tcp cfg env)) = 9"
    if "\<forall>i<10. connect_outcome env i = Refused"
    using connect_all_refused [of "connect_outcome env" tr1] that z
    by (simp add: s max_retries_def)
  have B: "fst (setup_tcp cfg env) = Inr ()
        \<and> connected (snd (setup_tcp cfg env))
        \<and> connect_calls (snd (setup_tcp cfg env)) = k + 1
        \<and> seconds_slept (snd (setup_tcp cfg env)) = k"
    if "k < 10" "\<forall>i<k. connect_outcome env i = Refused" "connect_outcome env k = Connected" for k
    using connect_first_success [of k "connect_outcome env" tr1] that z
    by (simp add: s max_retries_def)
  have C: "(\<forall>i<10. connect_outcome env i = Refused)
        \<and> connect_calls (snd (setup_tcp cfg env)) = 10"
    if "fst (setup_tcp cfg env) = Inl ConnectionRefusedError"
  proof -
    from that have "connect_with_retries (connect_outcome env) 0 tr1
        = (Inl ConnectionRefusedError, snd (setup_tcp cfg env))"
      by (simp add: s prod_eq_iff)
    from connect_refused_error_only_at_end [OF this] z show ?thesis
      by (simp add: max_retries_def)
  qed
  from A B C show ?thesis
    by blast
qed

theorem setup_tcp_retries_witness:
  "fst (setup_tcp cfg0 net_refusing) = Inl ConnectionRefusedError
   \<and> connect_calls (snd (setup_tcp cfg0 net_refusing)) = 10
   \<and> seconds_slept (snd (setup_tcp cfg0 net_refusing)) = 9
   \<and> fst (setup_tcp cfg0 net_ready_at_3) = Inr ()
   \<and> connect_calls (snd (setup_tcp cfg0 net_ready_at_3)) = 4
   \<and> seconds_slept (snd (setup_tcp cfg0 net_ready_at_3)) = 3"
proof -
  have c: "is_sender cfg0" "is_receiver cfg0 \<longrightarrow> bind_ok net_refusing"
    "is_receiver cfg0 \<longrightarrow> bind_ok net_ready_at_3"
    by (simp_all add: cfg0_def net_refusing_def net_ready_at_3_def)
  have "\<forall>i<10. connect_outcome net_refusing i = Refused"
    by (simp add: net_refusing_def)
  with setup_tcp_retries [OF c(1,2)]
  have a: "fst (setup_tcp cfg0 net_refusing) = Inl ConnectionRefusedError
       \<and> connect_calls (snd (setup_tcp cfg0 net_refusing)) = 10
       \<and> seconds_slept (snd (setup_tcp cfg0 net_refusing)) = 9"
    by blast
  have "(3 :: nat) < 10" "(\<forall>i<3. connect_outcome net_ready_at_3 i = Refused)
      \<and> connect_outcome net_ready_at_3 3 = Connected"
    by (simp_all add: net_ready_at_3_def)
  with setup_tcp_retries [OF c(1,3)]
  have "fst (setup_tcp cfg0 net_ready_at_3) = Inr ()
       \<and> connect_calls (snd (setup_tcp cfg0 net_ready_at_3)) = 3 + 1
       \<and> seconds_slept (snd (setup_tcp cfg0 net_ready_at_3)) = 3"
    by blast
  with a show ?thesis
    by simp
qed

section \<open>The summary\<close>





lemma int_of_product_percent:
  "int_of_product n (numeral p / 100) = (numeral p * n) div 100"
proof -
  have "(of_nat n :: rat) * (numeral p / 100) = of_int (int (numeral p * n)) / of_int 100"
    by simp
  then have "\<lfloor>(of_nat n :: rat) * (numeral p / 100)\<rfloor> = int (numeral p * n) div 100"
    by (simp only: floor_divide_of_int_eq)
  also have "\<dots> = int ((numeral p * n) div 100)"
    by (simp add: zdiv_int)
  finally show ?thesis
    by (simp only: int_of_product_def nat_int)
qed



section \<open>The binary64 product\<close>

lemma bit_length_upper: "n < 2 ^ bit_length n"
proof (induction n rule: bit_length.induct)
  case (1 n)
  show ?case
  proof (cases "n = 0")
    case True
    then show ?thesis by (simp add: bit_length.simps [of n])
  next
    case False
    with 1 have "n div 2 < 2 ^ bit_length (n div 2)"
      by simp
    then have "n < 2 * 2 ^ bit_length (n div 2)"
      by arith
    with False show ?thesis
      by (simp add: bit_length.simps [of n])
  qed
qed

lemma bit_length_lower: "0 < n \<Longrightarrow> 2 ^ bit_length n \<le> 2 * n"
proof (induction n rule: bit_length.induct)
  case (1 n)
  then have n: "n \<noteq> 0"
    by simp
  show ?case
  proof (cases "n div 2 = 0")
    case True
    have "bit_length n = Suc (bit_length (n div 2))"
      using n by (simp add: bit_length.simps [of n])
    also have "bit_length (n div 2) = 0"
      using True by (simp add: bit_length.simps [of 0])
    finally show ?thesis
      using n by simp
  next
    case False
    with 1 n have "2 ^ bit_length (n div 2) \<le> 2 * (n div 2)"
      by simp
    also have "\<dots> \<le> n"
      by simp
    finally show ?thesis
      using n by (simp add: bit_length.simps [of n])
  qed
qed

lemma bit_length_le: "n < 2 ^ k \<Longrightarrow> bit_length n \<le> k"
proof (rule ccontr)
  assume a: "n < 2 ^ k" and "\<not> bit_length n \<le> k"
  then have "Suc k \<le> bit_length n"
    by simp
  then have "(2 :: nat) ^ Suc k \<le> 2 ^ bit_length n"
    by (rule power_increasing) simp
  moreover have "0 < n"
    using \<open>\<not> bit_length n \<le> k\<close> by (cases "n = 0") (simp_all add: bit_length.simps [of 0])
  ultimately have "(2 :: nat) ^ Suc k \<le> 2 * n"
    using bit_length_lower [of n] by simp
  with a show False
    by simp
qed

lemma bit_length_gt: "2 ^ k \<le> n \<Longrightarrow> k < bit_length n"
proof (rule ccontr)
  assume a: "2 ^ k \<le> n" and "\<not> k < bit_length n"
  then have "bit_length n \<le> k"
    by simp
  then have "(2 :: nat) ^ bit_length n \<le> 2 ^ k"
    by (rule power_increasing) simp
  with bit_length_upper [of n] a show False
    by simp
qed

text \<open>The rounded value is within half a unit in the last place.\<close>

lemma f64_round_near:
  assumes "53 < bit_length N" "s = bit_length N - 53"
  shows "2 * f64_round N \<le> 2 * N + 2 ^ s \<and> 2 * N \<le> 2 * f64_round N + 2 ^ s"
proof -
  define q where "q = N div 2 ^ s"
  define r where "r = N mod 2 ^ s"
  have N: "N = q * 2 ^ s + r"
    using div_mult_mod_eq [of N "2 ^ s"] by (simp add: q_def r_def)
  have r: "r < 2 ^ s"
    by (simp add: r_def)
  have f: "f64_round N = (if 2 * r < 2 ^ s \<or> (2 * r = 2 ^ s \<and> even q) then q * 2 ^ s
              else (q + 1) * 2 ^ s)"
    using assms by (simp add: f64_round_def Let_def q_def r_def)
  show ?thesis
  proof (cases "2 * r < 2 ^ s \<or> (2 * r = 2 ^ s \<and> even q)")
    case True
    then have "f64_round N = q * 2 ^ s" "2 * r \<le> 2 ^ s"
      using f by auto
    with N show ?thesis
      by simp
  next
    case False
    then have "f64_round N = q * 2 ^ s + 2 ^ s" "2 ^ s \<le> 2 * r"
      using f by auto
    with N r show ?thesis
      by simp
  qed
qed

text \<open>A value just below a point of the grid is rounded up to it.\<close>

lemma f64_round_up:
  assumes "53 < bit_length N" "s = bit_length N - 53"
    and "T = t * 2 ^ s" "N < T" "2 * (T - N) < 2 ^ s"
  shows "f64_round N = T"
proof -
  define D where "D = T - N"
  have D: "0 < D" "2 * D < 2 ^ s" "N + D = T"
    using assms(4,5) by (simp_all add: D_def)
  from assms(3,4) have "0 < t"
    by (cases "t = 0") simp_all
  then obtain u where t: "t = Suc u"
    by (cases t) simp_all
  have N: "N = u * 2 ^ s + (2 ^ s - D)"
    using D assms(3) t by simp
  have rl: "2 ^ s - D < (2 :: nat) ^ s"
    using D by simp
  have q: "N div 2 ^ s = u"
    using rl by (simp add: N)
  have r: "N mod 2 ^ s = 2 ^ s - D"
    using rl by (simp add: N)
  have "2 ^ s < 2 * (2 ^ s - D)"
    using D(2) by arith
  then have "\<not> (2 * (2 ^ s - D) < (2 :: nat) ^ s \<or> (2 * (2 ^ s - D) = (2 :: nat) ^ s \<and> even u))"
    by simp
  moreover have "f64_round N =
      (if 2 * (N mod 2 ^ s) < 2 ^ s \<or> (2 * (N mod 2 ^ s) = 2 ^ s \<and> even (N div 2 ^ s))
       then N div 2 ^ s * 2 ^ s else (N div 2 ^ s + 1) * 2 ^ s)"
    using assms(1,2) by (simp add: f64_round_def Let_def)
  ultimately have "f64_round N = (u + 1) * 2 ^ s"
    by (simp only: q r if_False)
  then show ?thesis
    by (simp add: assms(3) t)
qed

lemma f64_round_near_32:
  assumes "N < 2 ^ 85"
  shows "2 * f64_round N \<le> 2 * N + 2 ^ 32 \<and> 2 * N \<le> 2 * f64_round N + 2 ^ 32"
proof (cases "bit_length N \<le> 53")
  case True
  then show ?thesis
    by (simp add: f64_round_def)
next
  case False
  define s where "s = bit_length N - 53"
  have "bit_length N \<le> 85"
    using assms by (rule bit_length_le)
  then have "s \<le> 32"
    by (simp add: s_def)
  then have "(2 :: nat) ^ s \<le> 2 ^ 32"
    by (rule power_increasing) simp
  moreover have "2 * f64_round N \<le> 2 * N + 2 ^ s \<and> 2 * N \<le> 2 * f64_round N + 2 ^ s"
    using False by (intro f64_round_near) (simp_all add: s_def)
  ultimately show ?thesis
    by linarith
qed

lemma multiple_of_successor:
  assumes "q * n = Suc q * i" "0 < n"
  shows "Suc q \<le> n"
proof -
  have "n * q = Suc q * i"
    using assms(1) by (simp only: mult.commute)
  then have "Suc q dvd n * q"
    by (simp only: dvd_triv_left)
  then have "Suc q dvd n"
    by (simp only: coprime_dvd_mult_left_iff [OF coprime_Suc_left_nat])
  with assms(2) show ?thesis
    by (auto dest: dvd_imp_le)
qed

lemma float_product_95:
  assumes "n < 2 ^ 32"
  shows "float_product_truncated n 8556839292003942 = (95 * n) div 100"
proof -
  define N where "N = n * 8556839292003942"
  define R where "R = f64_round N"
  define I where "I = (19 * n) div 20"
  define d where "d = (19 * n) mod 20"
  define X where "X = I * 9007199254740992"
  have n: "n < 4294967296"
    using assms by simp
  have e1: "20 * N + 8 * n = 171136785840078848 * n"
    by (simp add: N_def)
  have e2: "19 * n = 20 * I + d" "d < 20"
    by (simp_all add: I_def d_def)
  have "9007199254740992 * (19 * n) = 9007199254740992 * (20 * I + d)"
    by (simp only: e2)
  then have e3: "171136785840078848 * n = 20 * X + 9007199254740992 * d"
    by (simp add: X_def algebra_simps)
  have "N < 4294967296 * 9007199254740992"
    using n by (simp add: N_def)
  then have N85: "N < 2 ^ 85"
    by simp
  from f64_round_near_32 [OF N85]
  have near: "2 * R \<le> 2 * N + 4294967296" "2 * N \<le> 2 * R + 4294967296"
    by (simp_all add: R_def)
  have upper: "R < X + 9007199254740992"
    using near e1 e3 e2(2) n by linarith
  have lower: "X \<le> R"
  proof (cases "d = 0")
    case False
    then show ?thesis
      using near e1 e3 n by linarith
  next
    case True
    show ?thesis
    proof (cases "n = 0")
      case True
      then show ?thesis
        by (simp add: X_def I_def)
    next
      case False
      have "19 * n = Suc 19 * I"
        using True e2(1) by simp
      from multiple_of_successor [OF this] False have n20: "20 \<le> n"
        by simp
      then have "2 ^ 53 \<le> N"
        by (simp add: N_def)
      then have b: "53 < bit_length N"
        by (rule bit_length_gt)
      define s where "s = bit_length N - 53"
      have "bit_length N \<le> 85"
        using N85 by (rule bit_length_le)
      then have s: "s \<le> 53"
        by (simp add: s_def)
      have "bit_length N = s + 53"
        using b by (simp add: s_def)
      then have "N < 2 ^ (s + 53)"
        using bit_length_upper [of N] by simp
      then have P: "N < 9007199254740992 * 2 ^ s"
        by (simp add: power_add)
      have "X = I * 2 ^ (53 - s + s)"
        using s by (simp add: X_def)
      then have T: "X = (I * 2 ^ (53 - s)) * 2 ^ s"
        by (simp only: power_add mult.assoc)
      have lt: "N < X"
        using e1 e3 True False by linarith
      have "2 * (X - N) < 2 ^ s"
        using e1 e3 True P lt by linarith
      with b T lt have "f64_round N = X"
        by (intro f64_round_up [where s = s and t = "I * 2 ^ (53 - s)"]) (simp_all add: s_def)
      then show ?thesis
        by (simp add: R_def)
    qed
  qed
  have "R div 9007199254740992 = I"
    using lower upper by (intro div_nat_eqI) (simp_all add: X_def)
  moreover have "(95 * n) div 100 = I"
    by (simp add: I_def)
  ultimately show ?thesis
    by (simp add: float_product_truncated_def R_def N_def)
qed

lemma float_product_99:
  assumes "n < 2 ^ 32"
  shows "float_product_truncated n 8917127262193582 = (99 * n) div 100"
proof -
  define N where "N = n * 8917127262193582"
  define R where "R = f64_round N"
  define I where "I = (99 * n) div 100"
  define d where "d = (99 * n) mod 100"
  define X where "X = I * 9007199254740992"
  have n: "n < 4294967296"
    using assms by simp
  have e1: "100 * N + 8 * n = 891712726219358208 * n"
    by (simp add: N_def)
  have e2: "99 * n = 100 * I + d" "d < 100"
    by (simp_all add: I_def d_def)
  have "9007199254740992 * (99 * n) = 9007199254740992 * (100 * I + d)"
    by (simp only: e2)
  then have e3: "891712726219358208 * n = 100 * X + 9007199254740992 * d"
    by (simp add: X_def algebra_simps)
  have "N < 4294967296 * 9007199254740992"
    using n by (simp add: N_def)
  then have N85: "N < 2 ^ 85"
    by simp
  from f64_round_near_32 [OF N85]
  have near: "2 * R \<le> 2 * N + 4294967296" "2 * N \<le> 2 * R + 4294967296"
    by (simp_all add: R_def)
  have upper: "R < X + 9007199254740992"
    using near e1 e3 e2(2) n by linarith
  have lower: "X \<le> R"
  proof (cases "d = 0")
    case False
    then show ?thesis
      using near e1 e3 n by linarith
  next
    case True
    show ?thesis
    proof (cases "n = 0")
      case True
      then show ?thesis
        by (simp add: X_def I_def)
    next
      case False
      have "99 * n = Suc 99 * I"
        using True e2(1) by simp
      from multiple_of_successor [OF this] False have n20: "100 \<le> n"
        by simp
      then have "2 ^ 53 \<le> N"
        by (simp add: N_def)
      then have b: "53 < bit_length N"
        by (rule bit_length_gt)
      define s where "s = bit_length N - 53"
      have "bit_length N \<le> 85"
        using N85 by (rule bit_length_le)
      then have s: "s \<le> 53"
        by (simp add: s_def)
      have "bit_length N = s + 53"
        using b by (simp add: s_def)
      then have "N < 2 ^ (s + 53)"
        using bit_length_upper [of N] by simp
      then have P: "N < 9007199254740992 * 2 ^ s"
        by (simp add: power_add)
      have "X = I * 2 ^ (53 - s + s)"
        using s by (simp add: X_def)
      then have T: "X = (I * 2 ^ (53 - s)) * 2 ^ s"
        by (simp only: power_add mult.assoc)
      have lt: "N < X"
        using e1 e3 True False by linarith
      have "2 * (X - N) < 2 ^ s"
        using e1 e3 True P lt by linarith
      with b T lt have "f64_round N = X"
        by (intro f64_round_up [where s = s and t = "I * 2 ^ (53 - s)"]) (simp_all add: s_def)
      then show ?thesis
        by (simp add: R_def)
    qed
  qed
  have "R div 9007199254740992 = I"
    using lower upper by (intro div_nat_eqI) (simp_all add: X_def)
  moreover have "(99 * n) div 100 = I"
    by (simp add: I_def)
  ultimately show ?thesis
    by (simp add: float_product_truncated_def R_def N_def)
qed

text \<open>
  For fewer than \<open>2^32\<close> latencies the indices that the interpreter computes with
  binary64 numbers are the indices of the summary above.
\<close>

lemma float_product_is_exact:
  assumes "n < 2 ^ 32"
  shows "float_product_truncated n 8556839292003942 = int_of_product n (95 / 100)
     \<and> float_product_truncated n 8917127262193582 = int_of_product n (99 / 100)"
  using float_product_95 [OF assms] float_product_99 [OF assms]
  by (simp only: int_of_product_percent)

lemma bit_length_example: "bit_length 171136785840078840 = 58"
  by (simp add: bit_length.simps)

lemma float_product_example: "float_product_truncated 20 8556839292003942 = 19"
  by (simp add: float_product_truncated_def f64_round_def Let_def bit_length_example)






end
